theory Spec2Isabelle
  imports Main
begin

section \<open>The LinkedIn login script (Automation/LinkedIn/app.py)\<close>

text \<open>
  The script is one class, \<open>LinkedInBot\<close>, and a \<open>main\<close> function. It talks to three
  things outside itself: the regular-expression engine of Python (\<open>re.match\<close>), the
  browser driver (selenium, together with \<open>time.sleep\<close>), and the process environment.
  The regular expression is modelled in full, by a backtracking matcher over the syntax
  tree of the pattern. The browser is a parameter: any function from calls to outcomes,
  over any type of browser states. Exceptions are values, and the log and the sequence of
  calls made to the browser are part of the program state.
\<close>

subsection \<open>Regular expressions as \<open>re.match\<close> reads them\<close>

text \<open>
  A bracket class is a list of single characters and ranges. Strings are lists of 8-bit
  characters; on these the class \<open>\d\<close> of Python holds exactly the digits \<open>0\<close> to \<open>9\<close>.
\<close>

datatype item = Single char | Range char char

fun in_item :: "char \<Rightarrow> item \<Rightarrow> bool" where
  "in_item x (Single a) = (x = a)"
| "in_item x (Range a b) = ((of_char a :: nat) \<le> of_char x \<and> (of_char x :: nat) \<le> of_char b)"

definition in_class :: "item list \<Rightarrow> char \<Rightarrow> bool" where
  "in_class cs x = list_ex (in_item x) cs"

text \<open>
  The constructs the pattern of the script uses: the anchors \<open>^\<close> and \<open>$\<close>, a literal
  character, a bracket class, a greedy repetition \<open>{lo,hi}\<close> of a class (\<open>?\<close> is
  \<open>{0,1}\<close>, \<open>+\<close> is \<open>{1,}\<close>), concatenation and alternation.
\<close>

datatype regex =
    Bol
  | Eol
  | Lit char
  | In "item list"
  | Rep nat "nat option" "item list"
  | Cat regex regex
  | Alt regex regex

text \<open>
  A cursor is the number of characters consumed and the rest of the subject. \<open>ends r c\<close>
  lists, in the order the backtracking engine tries them, the cursors at which a match
  of \<open>r\<close> started at \<open>c\<close> can end. Without the MULTILINE flag \<open>^\<close> holds at the start of
  the subject only, and \<open>$\<close> holds at its end and also just before a newline that is its
  last character.
\<close>

type_synonym cursor = "nat \<times> string"

definition newline :: char where
  "newline = CHR 0x0A"

definition greedy :: "nat \<Rightarrow> nat option \<Rightarrow> item list \<Rightarrow> string \<Rightarrow> nat list" where
  "greedy lo hi cs s =
     (let n = length (takeWhile (in_class cs) s);
          m = (case hi of None \<Rightarrow> n | Some h \<Rightarrow> min h n)
      in rev [lo ..< Suc m])"

primrec ends :: "regex \<Rightarrow> cursor \<Rightarrow> cursor list" where
  "ends Bol c = (if fst c = 0 then [c] else [])"
| "ends Eol c = (if snd c = [] \<or> snd c = [newline] then [c] else [])"
| "ends (Lit a) c =
     (case snd c of [] \<Rightarrow> [] | x # xs \<Rightarrow> if x = a then [(Suc (fst c), xs)] else [])"
| "ends (In cs) c =
     (case snd c of [] \<Rightarrow> [] | x # xs \<Rightarrow> if in_class cs x then [(Suc (fst c), xs)] else [])"
| "ends (Rep lo hi cs) c = map (\<lambda>k. (fst c + k, drop k (snd c))) (greedy lo hi cs (snd c))"
| "ends (Cat r1 r2) c = concat (map (ends r2) (ends r1 c))"
| "ends (Alt r1 r2) c = ends r1 c @ ends r2 c"

text \<open>\<open>re.match\<close>: the first match that starts at the beginning of the subject, or \<open>None\<close>.\<close>

definition re_match :: "regex \<Rightarrow> string \<Rightarrow> cursor option" where
  "re_match r s = (case ends r (0, s) of [] \<Rightarrow> None | c # _ \<Rightarrow> Some c)"

text \<open>
  Line 56:
  \<^verbatim>\<open>^(\+?\d{10,14}|[a-zA-Z0-9._%+-]+@[a-zA-Z0-9.-]+\.[a-zA-Z]{2,})$\<close>
\<close>

definition digit :: "item list" where
  "digit = [Range CHR ''0'' CHR ''9'']"

definition local_chars :: "item list" where
  "local_chars = [Range CHR ''a'' CHR ''z'', Range CHR ''A'' CHR ''Z'', Range CHR ''0'' CHR ''9'',
     Single CHR ''.'', Single CHR ''_'', Single CHR ''%'', Single CHR ''+'', Single CHR ''-'']"

definition domain_chars :: "item list" where
  "domain_chars = [Range CHR ''a'' CHR ''z'', Range CHR ''A'' CHR ''Z'', Range CHR ''0'' CHR ''9'',
     Single CHR ''.'', Single CHR ''-'']"

definition letter :: "item list" where
  "letter = [Range CHR ''a'' CHR ''z'', Range CHR ''A'' CHR ''Z'']"

definition phone_pattern :: regex where
  "phone_pattern = Cat (Rep 0 (Some 1) [Single CHR ''+'']) (Rep 10 (Some 14) digit)"

definition email_pattern :: regex where
  "email_pattern =
     Cat (Rep 1 None local_chars)
    (Cat (Lit CHR ''@'')
    (Cat (Rep 1 None domain_chars)
    (Cat (Lit CHR ''.'')
         (Rep 2 None letter))))"

definition email_phone_pattern :: regex where
  "email_phone_pattern = Cat Bol (Cat (Alt phone_pattern email_pattern) Eol)"

subsection \<open>The two identifier formats, as the specification words them\<close>

text \<open>
  A phone number is an optional leading \<open>+\<close> and 10 to 14 digits. An email address is a
  local part, \<open>@\<close>, and a domain that ends in a dot and a top-level domain of two or more
  letters. The characters allowed in each part are those of the pattern. These two
  predicates describe whole strings; they are what the matcher above is compared with.
\<close>

definition phone_format :: "string \<Rightarrow> bool" where
  "phone_format s \<longleftrightarrow>
     (\<exists>ds. (s = ds \<or> s = CHR ''+'' # ds) \<and> 10 \<le> length ds \<and> length ds \<le> 14 \<and>
           list_all (in_class digit) ds)"

definition email_format :: "string \<Rightarrow> bool" where
  "email_format s \<longleftrightarrow>
     (\<exists>lp dom tld. s = lp @ CHR ''@'' # dom @ CHR ''.'' # tld \<and>
        lp \<noteq> [] \<and> list_all (in_class local_chars) lp \<and>
        dom \<noteq> [] \<and> list_all (in_class domain_chars) dom \<and>
        2 \<le> length tld \<and> list_all (in_class letter) tld)"

definition well_formed_identifier :: "string \<Rightarrow> bool" where
  "well_formed_identifier s \<longleftrightarrow> phone_format s \<or> email_format s"

subsection \<open>Exceptions, values, the browser and the program state\<close>

text \<open>
  \<open>Exception m\<close> is an instance of Python's class \<open>Exception\<close> (selenium's
  TimeoutException and NoSuchElementException among them) with message \<open>m\<close>;
  \<open>BaseException m\<close> is one that does not derive from \<open>Exception\<close>
  (KeyboardInterrupt, SystemExit). The handlers of the script are all
  \<open>except Exception\<close>.
\<close>

datatype exn = Exception string | BaseException string

fun is_Exception :: "exn \<Rightarrow> bool" where
  "is_Exception (Exception m) = True"
| "is_Exception (BaseException m) = False"

fun str_exn :: "exn \<Rightarrow> string" where
  "str_exn (Exception m) = m"
| "str_exn (BaseException m) = m"

datatype locator = By_NAME | By_XPATH | By_ID

datatype cond = url_contains string | presence_of_element_located locator string

text \<open>
  The Python values that flow through the script: \<open>None\<close>, an object of the driver
  library (the driver itself, a page element, whatever a wait returns) known by its
  handle only, a string, and an expected-condition object.
\<close>

datatype val = NoneV | Obj nat | Str string | Cond cond

fun truthy :: "val \<Rightarrow> bool" where
  "truthy NoneV = False"
| "truthy (Obj h) = True"
| "truthy (Str s) = (s \<noteq> [])"
| "truthy (Cond c) = True"

text \<open>
  The calls the script makes on the outside world after the browser is started. The
  first argument of a driver call is the receiver.
\<close>

datatype call =
    Get val string
  | Until val nat val
  | Find_element val locator string
  | Clear val
  | Send_keys val string
  | Click val
  | Current_url val
  | Quit val
  | Sleep nat

text \<open>
  The outside world: \<open>launch\<close> installs the driver and starts Chrome with the given
  flags, returning the handle of the new session; \<open>perform\<close> answers every other call.
  Both may raise and both may change the state of the world.
\<close>

record 'w outside =
  launch :: "string list \<Rightarrow> 'w \<Rightarrow> (exn + nat) \<times> 'w"
  perform :: "call \<Rightarrow> 'w \<Rightarrow> (exn + val) \<times> 'w"

datatype event =
    Launch "string list" "exn + nat"
  | Call call "exn + val"
  | Built cond

datatype level = INFO | WARNING | ERROR

record LinkedInBot =
  username :: string
  password :: string
  driver :: val

text \<open>
  The program state: the world, the lines logged so far, the events so far (every call
  to the outside world with its outcome, and every expected-condition object built),
  and the local variable \<open>bot\<close> of \<open>main\<close>.
\<close>

record 'w state =
  world :: 'w
  logged :: "(level \<times> string) list"
  trace :: "event list"
  bot :: "LinkedInBot option"

type_synonym ('a, 'w) prog = "'w state \<Rightarrow> (exn + 'a) \<times> 'w state"

definition ret :: "'a \<Rightarrow> ('a, 'w) prog" where
  "ret x = (\<lambda>s. (Inr x, s))"

definition raise :: "exn \<Rightarrow> ('a, 'w) prog" where
  "raise e = (\<lambda>s. (Inl e, s))"

definition andthen :: "('a, 'w) prog \<Rightarrow> ('a \<Rightarrow> ('b, 'w) prog) \<Rightarrow> ('b, 'w) prog" where
  "andthen m f = (\<lambda>s. case m s of (Inl e, s') \<Rightarrow> (Inl e, s') | (Inr x, s') \<Rightarrow> f x s')"

text \<open>\<open>try: m except Exception as e: h e\<close>\<close>

definition try_except :: "('a, 'w) prog \<Rightarrow> (exn \<Rightarrow> ('a, 'w) prog) \<Rightarrow> ('a, 'w) prog" where
  "try_except m h =
     (\<lambda>s. case m s of
        (Inl e, s') \<Rightarrow> if is_Exception e then h e s' else (Inl e, s')
      | (Inr x, s') \<Rightarrow> (Inr x, s'))"

text \<open>
  \<open>try: m finally: c\<close>. The cleanup always runs; when it raises, its exception replaces
  the outcome of \<open>m\<close>, otherwise the outcome of \<open>m\<close> stands.
\<close>

definition try_finally :: "('a, 'w) prog \<Rightarrow> (unit, 'w) prog \<Rightarrow> ('a, 'w) prog" where
  "try_finally m c =
     (\<lambda>s. case m s of (r, s') \<Rightarrow>
        (case c s' of (Inl e, t) \<Rightarrow> (Inl e, t) | (Inr u, t) \<Rightarrow> (r, t)))"

definition logger :: "level \<Rightarrow> string \<Rightarrow> (unit, 'w) prog" where
  "logger lvl msg = (\<lambda>s. (Inr (), s\<lparr>logged := logged s @ [(lvl, msg)]\<rparr>))"

definition start :: "'w outside \<Rightarrow> string list \<Rightarrow> (nat, 'w) prog" where
  "start out flags =
     (\<lambda>s. case launch out flags (world s) of (r, w') \<Rightarrow>
        (r, s\<lparr>world := w', trace := trace s @ [Launch flags r]\<rparr>))"

definition invoke :: "'w outside \<Rightarrow> call \<Rightarrow> (val, 'w) prog" where
  "invoke out c =
     (\<lambda>s. case perform out c (world s) of (r, w') \<Rightarrow>
        (r, s\<lparr>world := w', trace := trace s @ [Call c r]\<rparr>))"

text \<open>Building an expected-condition object (\<open>EC.url_contains(...)\<close> and the like).\<close>

definition EC :: "cond \<Rightarrow> (val, 'w) prog" where
  "EC c = (\<lambda>s. (Inr (Cond c), s\<lparr>trace := trace s @ [Built c]\<rparr>))"

text \<open>
  Python's \<open>a or b\<close>: \<open>a\<close> is evaluated; when it is truthy it is the result and \<open>b\<close> is
  not evaluated; otherwise \<open>b\<close> is evaluated and is the result.
\<close>

definition py_or :: "(val, 'w) prog \<Rightarrow> (val, 'w) prog \<Rightarrow> (val, 'w) prog" where
  "py_or a b = andthen a (\<lambda>x. if truthy x then ret x else b)"

text \<open>\<open>needle in hay\<close> for a string \<open>needle\<close>: a substring test when \<open>hay\<close> is a string, a
  TypeError otherwise. The message Python gives the TypeError names the type of \<open>hay\<close>;
  here it is the name of the class only.\<close>

fun contains :: "string \<Rightarrow> string \<Rightarrow> bool" where
  "contains needle [] = (needle = [])"
| "contains needle (x # xs) = (take (length needle) (x # xs) = needle \<or> contains needle xs)"

fun py_in :: "string \<Rightarrow> val \<Rightarrow> (bool, 'w) prog" where
  "py_in needle (Str hay) = ret (contains needle hay)"
| "py_in needle v = raise (Exception ''TypeError'')"

definition getenv :: "(string \<rightharpoonup> string) \<Rightarrow> string \<Rightarrow> string \<Rightarrow> string" where
  "getenv env k dflt = (case env k of None \<Rightarrow> dflt | Some v \<Rightarrow> v)"

subsection \<open>class LinkedInBot\<close>

definition chrome_options :: "string list" where
  "chrome_options = [''--start-maximized'', ''--disable-extensions'', ''--disable-gpu'',
     ''--no-sandbox'', ''--disable-dev-shm-usage'']"

text \<open>\<open>__init__\<close> (lines 25 to 47): nothing is caught.\<close>

definition init :: "'w outside \<Rightarrow> string \<Rightarrow> string \<Rightarrow> (LinkedInBot, 'w) prog" where
  "init out u p =
     andthen (start out chrome_options) (\<lambda>h.
     ret \<lparr>username = u, password = p, driver = Obj h\<rparr>)"

text \<open>\<open>validate_credentials\<close> (lines 49 to 66).\<close>

definition validate_credentials :: "LinkedInBot \<Rightarrow> (bool, 'w) prog" where
  "validate_credentials self =
     (if re_match email_phone_pattern (username self) = None then
        andthen (logger ERROR ''Invalid email or phone number format'') (\<lambda>_. ret False)
      else if length (password self) < 8 then
        andthen (logger ERROR ''Password too short'') (\<lambda>_. ret False)
      else ret True)"

text \<open>
  The body of the \<open>try\<close> of \<open>login\<close> after the validation (lines 79 to 116), one
  definition for each commented block of the source.
\<close>

definition navigate :: "'w outside \<Rightarrow> LinkedInBot \<Rightarrow> (unit, 'w) prog" where
  "navigate out self =
     andthen (invoke out (Get (driver self) ''https://www.linkedin.com/login'')) (\<lambda>_.
     logger INFO ''Navigated to LinkedIn login page'')"

definition enter_username :: "'w outside \<Rightarrow> LinkedInBot \<Rightarrow> (unit, 'w) prog" where
  "enter_username out self =
     andthen (EC (presence_of_element_located By_NAME ''session_key'')) (\<lambda>located.
     andthen (invoke out (Until (driver self) 10 located)) (\<lambda>username_field.
     andthen (invoke out (Clear username_field)) (\<lambda>_.
     andthen (invoke out (Send_keys username_field (username self))) (\<lambda>_.
     logger INFO ''Username entered''))))"

definition enter_password :: "'w outside \<Rightarrow> LinkedInBot \<Rightarrow> (unit, 'w) prog" where
  "enter_password out self =
     andthen (invoke out (Find_element (driver self) By_NAME ''session_password'')) (\<lambda>password_field.
     andthen (invoke out (Clear password_field)) (\<lambda>_.
     andthen (invoke out (Send_keys password_field (password self))) (\<lambda>_.
     logger INFO ''Password entered'')))"

definition click_sign_in :: "'w outside \<Rightarrow> LinkedInBot \<Rightarrow> (unit, 'w) prog" where
  "click_sign_in out self =
     andthen (invoke out (Find_element (driver self) By_XPATH
        ''//button[@data-litms-control-urn=\"login-submit\" and @type=\"submit\"]'')) (\<lambda>login_button.
     andthen (invoke out (Click login_button)) (\<lambda>_.
     logger INFO ''Sign in button clicked''))"

text \<open>Lines 106 and 107: the argument of the second wait.\<close>

definition outcome_condition :: "(val, 'w) prog" where
  "outcome_condition =
     py_or (EC (url_contains ''feed''))
           (EC (presence_of_element_located By_ID ''challenge''))"

definition await_outcome :: "'w outside \<Rightarrow> LinkedInBot \<Rightarrow> (unit, 'w) prog" where
  "await_outcome out self =
     andthen outcome_condition (\<lambda>awaited.
     andthen (invoke out (Until (driver self) 20 awaited)) (\<lambda>_.
     ret ()))"

definition check_success :: "'w outside \<Rightarrow> LinkedInBot \<Rightarrow> (bool, 'w) prog" where
  "check_success out self =
     andthen (invoke out (Current_url (driver self))) (\<lambda>current_url.
     andthen (py_in ''feed'' current_url) (\<lambda>found.
     if found then andthen (logger INFO ''Successfully logged in!'') (\<lambda>_. ret True)
     else andthen (logger WARNING ''Login may require additional verification'') (\<lambda>_. ret False)))"

text \<open>Lines 79 to 108: everything between the validation and the check of the result.\<close>

definition submit_and_wait :: "'w outside \<Rightarrow> LinkedInBot \<Rightarrow> (unit, 'w) prog" where
  "submit_and_wait out self =
     andthen (navigate out self) (\<lambda>_.
     andthen (enter_username out self) (\<lambda>_.
     andthen (enter_password out self) (\<lambda>_.
     andthen (click_sign_in out self) (\<lambda>_.
     await_outcome out self))))"

text \<open>Lines 79 to 116: what \<open>login\<close> does once the credentials are validated.\<close>

definition attempt :: "'w outside \<Rightarrow> LinkedInBot \<Rightarrow> (bool, 'w) prog" where
  "attempt out self = andthen (submit_and_wait out self) (\<lambda>_. check_success out self)"

text \<open>\<open>login\<close> (lines 68 to 120).\<close>

definition login :: "'w outside \<Rightarrow> LinkedInBot \<Rightarrow> (bool, 'w) prog" where
  "login out self =
     try_except
       (andthen (validate_credentials self) (\<lambda>valid.
        if \<not> valid then ret False else attempt out self))
       (\<lambda>e. andthen (logger ERROR (''Login failed: '' @ str_exn e)) (\<lambda>_. ret False))"

text \<open>\<open>close\<close> (lines 122 to 128).\<close>

definition close :: "'w outside \<Rightarrow> LinkedInBot \<Rightarrow> (unit, 'w) prog" where
  "close out self =
     andthen (if truthy (driver self) then andthen (invoke out (Quit (driver self))) (\<lambda>_. ret ())
              else ret ()) (\<lambda>_.
     logger INFO ''Browser session closed'')"

subsection \<open>main\<close>

definition set_bot :: "LinkedInBot option \<Rightarrow> (unit, 'w) prog" where
  "set_bot b = (\<lambda>s. (Inr (), s\<lparr>bot := b\<rparr>))"

definition get_bot :: "(LinkedInBot option, 'w) prog" where
  "get_bot = (\<lambda>s. (Inr (bot s), s))"

text \<open>\<open>main\<close> (lines 130 to 151); \<open>env\<close> is the process environment.\<close>

definition main :: "(string \<rightharpoonup> string) \<Rightarrow> 'w outside \<Rightarrow> (unit, 'w) prog" where
  "main env out =
     (let USERNAME = getenv env ''LINKEDIN_USERNAME'' ''your_email_or_phone'';
          PASSWORD = getenv env ''LINKEDIN_PASSWORD'' ''your_password''
      in andthen (set_bot None) (\<lambda>_.
         try_finally
           (try_except
              (andthen (init out USERNAME PASSWORD) (\<lambda>b.
               andthen (set_bot (Some b)) (\<lambda>_.
               andthen (login out b) (\<lambda>login_success.
               if login_success then andthen (invoke out (Sleep 10)) (\<lambda>_. ret ())
               else logger WARNING ''Login unsuccessful or requires additional verification''))))
              (\<lambda>e. logger ERROR (''Unexpected error: '' @ str_exn e)))
           (andthen get_bot (\<lambda>b.
            case b of None \<Rightarrow> ret () | Some self \<Rightarrow> close out self))))"


subsection \<open>Vocabulary of the statements\<close>

text \<open>What a run added to the trace and to the log, and the lines of level ERROR.\<close>

definition new_events :: "'w state \<Rightarrow> 'w state \<Rightarrow> event list" where
  "new_events s s' = drop (length (trace s)) (trace s')"

definition new_lines :: "'w state \<Rightarrow> 'w state \<Rightarrow> (level \<times> string) list" where
  "new_lines s s' = drop (length (logged s)) (logged s')"

definition errors :: "(level \<times> string) list \<Rightarrow> (level \<times> string) list" where
  "errors ls = filter (\<lambda>l. fst l = ERROR) ls"

fun is_quit :: "event \<Rightarrow> bool" where
  "is_quit (Call (Quit d) r) = True"
| "is_quit e = False"

text \<open>
  The wait of the specification's reading (b): on the URL condition alone. It is compared
  with \<open>await_outcome\<close>.
\<close>

definition await_url_only :: "'w outside \<Rightarrow> LinkedInBot \<Rightarrow> (unit, 'w) prog" where
  "await_url_only out self =
     andthen (EC (url_contains ''feed'')) (\<lambda>awaited.
     andthen (invoke out (Until (driver self) 20 awaited)) (\<lambda>_.
     ret ()))"

subsection \<open>Notions used in the proofs\<close>

text \<open>The strings a pattern without anchors matches, as a set.\<close>

primrec anchor_free :: "regex \<Rightarrow> bool" where
  "anchor_free Bol = False"
| "anchor_free Eol = False"
| "anchor_free (Lit a) = True"
| "anchor_free (In cs) = True"
| "anchor_free (Rep lo hi cs) = True"
| "anchor_free (Cat r1 r2) = (anchor_free r1 \<and> anchor_free r2)"
| "anchor_free (Alt r1 r2) = (anchor_free r1 \<and> anchor_free r2)"

primrec lang :: "regex \<Rightarrow> string set" where
  "lang Bol = {}"
| "lang Eol = {}"
| "lang (Lit a) = {[a]}"
| "lang (In cs) = {[x] | x. in_class cs x}"
| "lang (Rep lo hi cs) =
     {u. lo \<le> length u \<and> (case hi of None \<Rightarrow> True | Some h \<Rightarrow> length u \<le> h) \<and>
         list_all (in_class cs) u}"
| "lang (Cat r1 r2) = {u @ v | u v. u \<in> lang r1 \<and> v \<in> lang r2}"
| "lang (Alt r1 r2) = lang r1 \<union> lang r2"

text \<open>
  A program is \<open>quitless\<close> when it leaves the variable \<open>bot\<close> alone and only adds events
  other than a call of \<open>quit\<close>. It \<open>reports\<close> when it logs no line of level ERROR and
  every failed call among the events it adds is the exception it raises.
\<close>

definition quitless :: "('a, 'w) prog \<Rightarrow> bool" where
  "quitless m \<longleftrightarrow>
     (\<forall>s. bot (snd (m s)) = bot s \<and>
          (\<exists>evs. trace (snd (m s)) = trace s @ evs \<and> list_all (\<lambda>e. \<not> is_quit e) evs))"

definition reports :: "('a, 'w) prog \<Rightarrow> bool" where
  "reports m \<longleftrightarrow>
     (\<forall>s. \<exists>evs ls. trace (snd (m s)) = trace s @ evs \<and> logged (snd (m s)) = logged s @ ls \<and>
          list_all (\<lambda>l. fst l \<noteq> ERROR) ls \<and>
          (\<forall>c e. Call c (Inl e) \<in> set evs \<longrightarrow> fst (m s) = Inl e))"

definition valid :: "LinkedInBot \<Rightarrow> bool" where
  "valid self \<longleftrightarrow>
     re_match email_phone_pattern (username self) \<noteq> None \<and> 8 \<le> length (password self)"

definition complaint :: "LinkedInBot \<Rightarrow> level \<times> string" where
  "complaint self =
     (if re_match email_phone_pattern (username self) = None
      then (ERROR, ''Invalid email or phone number format'') else (ERROR, ''Password too short''))"

definition farewell :: "level \<times> string" where
  "farewell = (INFO, ''Browser session closed'')"

text \<open>The three parts of the \<open>try\<close> statement of \<open>main\<close>.\<close>

definition after_login :: "'w outside \<Rightarrow> LinkedInBot \<Rightarrow> (unit, 'w) prog" where
  "after_login out b =
     andthen (login out b) (\<lambda>login_success.
       if login_success then andthen (invoke out (Sleep 10)) (\<lambda>_. ret ())
       else logger WARNING ''Login unsuccessful or requires additional verification'')"

definition handler :: "exn \<Rightarrow> (unit, 'w) prog" where
  "handler e = logger ERROR (''Unexpected error: '' @ str_exn e)"

definition cleanup :: "'w outside \<Rightarrow> (unit, 'w) prog" where
  "cleanup out = andthen get_bot (\<lambda>b. case b of None \<Rightarrow> ret () | Some self \<Rightarrow> close out self)"

subsection \<open>Concrete browsers and agents\<close>

definition initial :: "unit state" where
  "initial = \<lparr>world = (), logged = [], trace = [], bot = None\<rparr>"

definition browser :: "(exn + nat) \<Rightarrow> (call \<Rightarrow> exn + val) \<Rightarrow> unit outside" where
  "browser l f = \<lparr>launch = (\<lambda>flags w. (l, w)), perform = (\<lambda>c w. (f c, w))\<rparr>"

text \<open>The site logs the user in and lands on the feed.\<close>

fun feed_page :: "call \<Rightarrow> exn + val" where
  "feed_page (Current_url d) = Inr (Str ''https://www.linkedin.com/feed/'')"
| "feed_page (Until d t c) = Inr (Obj 2)"
| "feed_page (Find_element d b n) = Inr (Obj 3)"
| "feed_page c = Inr NoneV"

text \<open>The wait returns, and the URL read afterwards is a checkpoint page.\<close>

fun checkpoint_page :: "call \<Rightarrow> exn + val" where
  "checkpoint_page (Current_url d) = Inr (Str ''https://www.linkedin.com/checkpoint/challenge'')"
| "checkpoint_page c = feed_page c"

text \<open>The user name field never appears: the first wait times out.\<close>

fun no_form :: "call \<Rightarrow> exn + val" where
  "no_form (Until d t c) = Inl (Exception ''Message: timeout'')"
| "no_form c = feed_page c"

text \<open>The form is there, but neither the feed nor anything else the script waits for
  comes up: the second wait, of 20 seconds, times out.\<close>

fun no_outcome :: "call \<Rightarrow> exn + val" where
  "no_outcome (Until d t c) = (if t = 20 then Inl (Exception ''Message: timeout'') else Inr (Obj 2))"
| "no_outcome c = feed_page c"

text \<open>The session is gone when \<open>quit\<close> is called.\<close>

fun quit_fails :: "call \<Rightarrow> exn + val" where
  "quit_fails (Quit d) = Inl (Exception ''Message: invalid session id'')"
| "quit_fails c = feed_page c"

text \<open>The user interrupts the navigation.\<close>

fun interrupted :: "call \<Rightarrow> exn + val" where
  "interrupted (Get d u) = Inl (BaseException ''KeyboardInterrupt'')"
| "interrupted c = feed_page c"

definition alice :: LinkedInBot where
  "alice = \<lparr>username = ''user@example.com'', password = ''12345678'', driver = Obj 1\<rparr>"

definition mallory :: LinkedInBot where
  "mallory = \<lparr>username = ''12345'', password = ''12345678'', driver = Obj 1\<rparr>"

definition ghost :: LinkedInBot where
  "ghost = \<lparr>username = ''user@example.com'', password = ''12345678'', driver = NoneV\<rparr>"

definition credentials :: "string \<rightharpoonup> string" where
  "credentials = [''LINKEDIN_USERNAME'' \<mapsto> ''user@example.com'',
     ''LINKEDIN_PASSWORD'' \<mapsto> ''12345678'']"

section \<open>Lemmas\<close>

subsection \<open>The matcher and the strings it accepts\<close>

lemma le_length_takeWhile:
  "k \<le> length (takeWhile P s) \<longleftrightarrow> k \<le> length s \<and> list_all P (take k s)"
proof (induction s arbitrary: k)
  case Nil
  then show ?case by simp
next
  case (Cons x xs)
  show ?case
  proof (cases k)
    case 0
    then show ?thesis by simp
  next
    case (Suc j)
    then show ?thesis using Cons.IH [of j] by simp
  qed
qed

lemma set_greedy:
  "k \<in> set (greedy lo hi cs s) \<longleftrightarrow>
     lo \<le> k \<and> k \<le> length s \<and> list_all (in_class cs) (take k s) \<and>
     (case hi of None \<Rightarrow> True | Some h \<Rightarrow> k \<le> h)"
proof -
  have "k \<in> set (greedy lo hi cs s) \<longleftrightarrow>
     lo \<le> k \<and> k \<le> length (takeWhile (in_class cs) s) \<and>
     (case hi of None \<Rightarrow> True | Some h \<Rightarrow> k \<le> h)"
    by (cases hi) (auto simp: greedy_def Let_def)
  then show ?thesis
    by (simp only: le_length_takeWhile conj_assoc)
qed

lemma ends_Rep_iff:
  "(q, t) \<in> set (ends (Rep lo hi cs) (p, s)) \<longleftrightarrow>
     (\<exists>u. s = u @ t \<and> q = p + length u \<and> u \<in> lang (Rep lo hi cs))"
proof
  assume "(q, t) \<in> set (ends (Rep lo hi cs) (p, s))"
  then obtain k where k: "k \<in> set (greedy lo hi cs s)" "q = p + k" "t = drop k s"
    by auto
  from k(1) have "lo \<le> k" "k \<le> length s" "list_all (in_class cs) (take k s)"
    "case hi of None \<Rightarrow> True | Some h \<Rightarrow> k \<le> h"
    by (simp_all add: set_greedy)
  then have "s = take k s @ t \<and> q = p + length (take k s) \<and> take k s \<in> lang (Rep lo hi cs)"
    using k(2,3) by (cases hi) (simp_all add: min_def)
  then show "\<exists>u. s = u @ t \<and> q = p + length u \<and> u \<in> lang (Rep lo hi cs)" ..
next
  assume "\<exists>u. s = u @ t \<and> q = p + length u \<and> u \<in> lang (Rep lo hi cs)"
  then obtain u where u: "s = u @ t" "q = p + length u" "u \<in> lang (Rep lo hi cs)"
    by blast
  then have "length u \<in> set (greedy lo hi cs s)"
    by (cases hi) (simp_all add: set_greedy)
  moreover have "t = drop (length u) s" using u(1) by simp
  ultimately show "(q, t) \<in> set (ends (Rep lo hi cs) (p, s))"
    using u(2) by (auto simp: image_iff)
qed

lemma ends_iff:
  "anchor_free r \<Longrightarrow>
     (q, t) \<in> set (ends r (p, s)) \<longleftrightarrow> (\<exists>u. s = u @ t \<and> q = p + length u \<and> u \<in> lang r)"
proof (induction r arbitrary: p s q t)
  case (Lit a)
  show ?case by (cases s) auto
next
  case (In cs)
  show ?case by (cases s) auto
next
  case (Rep lo hi cs)
  show ?case by (rule ends_Rep_iff)
next
  case (Cat r1 r2)
  then have f1: "anchor_free r1" and f2: "anchor_free r2" by simp_all
  show ?case
  proof
    assume "(q, t) \<in> set (ends (Cat r1 r2) (p, s))"
    then obtain q1 t1 where a: "(q1, t1) \<in> set (ends r1 (p, s))"
      and b: "(q, t) \<in> set (ends r2 (q1, t1))"
      by auto
    from a obtain u where u: "s = u @ t1" "q1 = p + length u" "u \<in> lang r1"
      using Cat.IH(1) [OF f1] by blast
    from b obtain v where v: "t1 = v @ t" "q = q1 + length v" "v \<in> lang r2"
      using Cat.IH(2) [OF f2] by blast
    have "s = (u @ v) @ t \<and> q = p + length (u @ v) \<and> u @ v \<in> lang (Cat r1 r2)"
      using u v by auto
    then show "\<exists>w. s = w @ t \<and> q = p + length w \<and> w \<in> lang (Cat r1 r2)" ..
  next
    assume "\<exists>w. s = w @ t \<and> q = p + length w \<and> w \<in> lang (Cat r1 r2)"
    then obtain u v where w: "s = (u @ v) @ t" "q = p + length (u @ v)"
      "u \<in> lang r1" "v \<in> lang r2"
      by auto
    have a: "(p + length u, v @ t) \<in> set (ends r1 (p, s))"
      using Cat.IH(1) [OF f1, of "p + length u" "v @ t" p s] w by auto
    have b: "(q, t) \<in> set (ends r2 (p + length u, v @ t))"
      using Cat.IH(2) [OF f2, of q t "p + length u" "v @ t"] w by auto
    from a b show "(q, t) \<in> set (ends (Cat r1 r2) (p, s))"
      by auto
  qed
next
  case (Alt r1 r2)
  then show ?case by auto
qed simp_all


lemma lang_phone_pattern: "s \<in> lang phone_pattern \<longleftrightarrow> phone_format s"
proof
  assume "s \<in> lang phone_pattern"
  then obtain u v where uv: "s = u @ v" "length u \<le> 1" "list_all (in_class [Single CHR ''+'']) u"
    "10 \<le> length v" "length v \<le> 14" "list_all (in_class digit) v"
    by (auto simp: phone_pattern_def)
  show "phone_format s"
  proof (cases u)
    case Nil
    then show ?thesis using uv by (auto simp: phone_format_def)
  next
    case (Cons x xs)
    then have "u = [CHR ''+'']" using uv(2,3) by (simp add: in_class_def)
    then show ?thesis using uv by (auto simp: phone_format_def)
  qed
next
  assume "phone_format s"
  then obtain ds where ds: "s = ds \<or> s = CHR ''+'' # ds" "10 \<le> length ds" "length ds \<le> 14"
    "list_all (in_class digit) ds"
    by (auto simp: phone_format_def)
  from ds(1) show "s \<in> lang phone_pattern"
  proof
    assume "s = ds"
    then have "s = [] @ ds" by simp
    then show ?thesis using ds(2-4) unfolding phone_pattern_def lang.simps
      by (intro CollectI exI [of _ "[]"] exI [of _ ds]) simp
  next
    assume "s = CHR ''+'' # ds"
    then have "s = [CHR ''+''] @ ds" by simp
    then show ?thesis using ds(2-4) unfolding phone_pattern_def lang.simps
      by (intro CollectI exI [of _ "[CHR ''+'']"] exI [of _ ds]) (simp add: in_class_def)
  qed
qed

lemma lang_email_pattern: "s \<in> lang email_pattern \<longleftrightarrow> email_format s"
proof
  assume "s \<in> lang email_pattern"
  then obtain lp r1 where a: "s = lp @ r1" "lp \<in> lang (Rep 1 None local_chars)"
    "r1 \<in> lang (Cat (Lit CHR ''@'') (Cat (Rep 1 None domain_chars) (Cat (Lit CHR ''.'') (Rep 2 None letter))))"
    unfolding email_pattern_def lang.simps(6) [of "Rep 1 None local_chars"] by blast
  from a(3) obtain r2 where b: "r1 = CHR ''@'' # r2"
    "r2 \<in> lang (Cat (Rep 1 None domain_chars) (Cat (Lit CHR ''.'') (Rep 2 None letter)))"
    unfolding lang.simps(6) [of "Lit CHR ''@''"] by auto
  from b(2) obtain dom r3 where c: "r2 = dom @ r3" "dom \<in> lang (Rep 1 None domain_chars)"
    "r3 \<in> lang (Cat (Lit CHR ''.'') (Rep 2 None letter))"
    unfolding lang.simps(6) [of "Rep 1 None domain_chars"] by blast
  from c(3) obtain tld where d: "r3 = CHR ''.'' # tld" "tld \<in> lang (Rep 2 None letter)"
    by auto
  have "s = lp @ CHR ''@'' # dom @ CHR ''.'' # tld" using a(1) b(1) c(1) d(1) by simp
  moreover have "lp \<noteq> []" "list_all (in_class local_chars) lp" using a(2) by auto
  moreover have "dom \<noteq> []" "list_all (in_class domain_chars) dom" using c(2) by auto
  moreover have "2 \<le> length tld" "list_all (in_class letter) tld" using d(2) by auto
  ultimately show "email_format s" unfolding email_format_def by blast
next
  assume "email_format s"
  then obtain lp dom tld where e: "s = lp @ CHR ''@'' # dom @ CHR ''.'' # tld"
    "lp \<noteq> []" "list_all (in_class local_chars) lp"
    "dom \<noteq> []" "list_all (in_class domain_chars) dom"
    "2 \<le> length tld" "list_all (in_class letter) tld"
    unfolding email_format_def by blast
  have d: "CHR ''.'' # tld \<in> lang (Cat (Lit CHR ''.'') (Rep 2 None letter))"
    using e(6,7) by simp
  have "dom \<in> lang (Rep 1 None domain_chars)"
    using e(4,5) by (cases dom) simp_all
  with d have c: "dom @ CHR ''.'' # tld \<in> lang (Cat (Rep 1 None domain_chars) (Cat (Lit CHR ''.'') (Rep 2 None letter)))"
    unfolding lang.simps(6) [of "Rep 1 None domain_chars"] by blast
  then have b: "CHR ''@'' # dom @ CHR ''.'' # tld
      \<in> lang (Cat (Lit CHR ''@'') (Cat (Rep 1 None domain_chars) (Cat (Lit CHR ''.'') (Rep 2 None letter))))"
    unfolding lang.simps(6) [of "Lit CHR ''@''"] by simp
  have "lp \<in> lang (Rep 1 None local_chars)"
    using e(2,3) by (cases lp) simp_all
  with b show "s \<in> lang email_pattern"
    unfolding email_pattern_def lang.simps(6) [of "Rep 1 None local_chars"] e(1) by blast
qed

lemma anchor_free_body: "anchor_free (Alt phone_pattern email_pattern)"
  by (simp add: phone_pattern_def email_pattern_def)

lemma lang_body: "u \<in> lang (Alt phone_pattern email_pattern) \<longleftrightarrow> well_formed_identifier u"
  by (simp add: lang_phone_pattern lang_email_pattern well_formed_identifier_def)

lemma concat_map_nonempty: "concat (map f xs) \<noteq> [] \<longleftrightarrow> (\<exists>x \<in> set xs. f x \<noteq> [])"
  by (induction xs) auto

lemma re_match_None: "re_match r s \<noteq> None \<longleftrightarrow> ends r (0, s) \<noteq> []"
  by (simp add: re_match_def split: list.splits)

lemma re_match_Bol_Eol:
  "re_match (Cat Bol (Cat r Eol)) s \<noteq> None \<longleftrightarrow>
     (\<exists>q t. (q, t) \<in> set (ends r (0, s)) \<and> (t = [] \<or> t = [newline]))"
proof -
  have a: "re_match (Cat Bol (Cat r Eol)) s \<noteq> None \<longleftrightarrow> ends (Cat Bol (Cat r Eol)) (0, s) \<noteq> []"
    by (rule re_match_None)
  have b: "ends (Cat Bol (Cat r Eol)) (0, s) = concat (map (ends Eol) (ends r (0, s)))"
    by simp
  have c: "concat (map (ends Eol) (ends r (0, s))) \<noteq> [] \<longleftrightarrow>
      (\<exists>c \<in> set (ends r (0, s)). ends Eol c \<noteq> [])"
    by (rule concat_map_nonempty)
  have d: "ends Eol c \<noteq> [] \<longleftrightarrow> snd c = [] \<or> snd c = [newline]" for c
    by simp
  show ?thesis
    unfolding a b c d by force
qed

lemma re_match_email_phone:
  "re_match email_phone_pattern s \<noteq> None \<longleftrightarrow>
     well_formed_identifier s \<or> (\<exists>u. s = u @ [newline] \<and> well_formed_identifier u)"
proof -
  have "re_match email_phone_pattern s \<noteq> None \<longleftrightarrow>
      (\<exists>q t. (\<exists>u. s = u @ t \<and> q = 0 + length u \<and> well_formed_identifier u) \<and> (t = [] \<or> t = [newline]))"
    unfolding email_phone_pattern_def re_match_Bol_Eol ends_iff [OF anchor_free_body] lang_body ..
  also have "\<dots> \<longleftrightarrow> (\<exists>t u. s = u @ t \<and> well_formed_identifier u \<and> (t = [] \<or> t = [newline]))"
    by auto
  also have "\<dots> \<longleftrightarrow> well_formed_identifier s \<or> (\<exists>u. s = u @ [newline] \<and> well_formed_identifier u)"
  proof
    assume "\<exists>t u. s = u @ t \<and> well_formed_identifier u \<and> (t = [] \<or> t = [newline])"
    then obtain t u where "s = u @ t" "well_formed_identifier u" "t = [] \<or> t = [newline]"
      by blast
    then show "well_formed_identifier s \<or> (\<exists>u. s = u @ [newline] \<and> well_formed_identifier u)"
      by auto
  next
    assume "well_formed_identifier s \<or> (\<exists>u. s = u @ [newline] \<and> well_formed_identifier u)"
    then show "\<exists>t u. s = u @ t \<and> well_formed_identifier u \<and> (t = [] \<or> t = [newline])"
    proof
      assume "well_formed_identifier s"
      then have "s = s @ [] \<and> well_formed_identifier s \<and> ([] = [] \<or> [] = [newline])" by simp
      then show ?thesis by blast
    next
      assume "\<exists>u. s = u @ [newline] \<and> well_formed_identifier u"
      then show ?thesis by blast
    qed
  qed
  finally show ?thesis .
qed

subsection \<open>Running a sequence\<close>

lemma andthen_Inr: "m s = (Inr x, s') \<Longrightarrow> andthen m f s = f x s'"
  by (simp add: andthen_def)

lemma andthen_Inl: "m s = (Inl e, s') \<Longrightarrow> andthen m f s = (Inl e, s')"
  by (simp add: andthen_def)

lemma andthen_cases:
  obtains (raised) e s' where "m s = (Inl e, s')" "andthen m f s = (Inl e, s')"
  | (returned) x s' where "m s = (Inr x, s')" "andthen m f s = f x s'"
proof (cases "m s")
  case (Pair r s')
  then show ?thesis
    by (cases r) (auto intro: raised returned simp: andthen_def)
qed

subsection \<open>Programs that never call quit\<close>

lemma quitlessI:
  assumes "\<And>s. bot (snd (m s)) = bot s"
    and "\<And>s. \<exists>evs. trace (snd (m s)) = trace s @ evs \<and> list_all (\<lambda>e. \<not> is_quit e) evs"
  shows "quitless m"
  using assms by (simp add: quitless_def)

lemma quitless_ret: "quitless (ret x)"
  by (simp add: quitless_def ret_def)

lemma quitless_raise: "quitless (raise e)"
  by (simp add: quitless_def raise_def)

lemma quitless_logger: "quitless (logger lvl msg)"
  by (simp add: quitless_def logger_def)

lemma quitless_EC: "quitless (EC c)"
  by (simp add: quitless_def EC_def)

lemma quitless_py_in: "quitless (py_in needle v)"
  by (cases v) (simp_all add: quitless_ret quitless_raise)

lemma quitless_invoke: "\<forall>d. c \<noteq> Quit d \<Longrightarrow> quitless (invoke out c)"
  by (cases c) (auto simp: quitless_def invoke_def split: prod.splits)

lemma quitless_andthen:
  assumes "quitless m" and "\<And>x. quitless (f x)"
  shows "quitless (andthen m f)"
  unfolding quitless_def
proof (intro allI)
  fix s
  from assms(1) obtain evs1 where m: "bot (snd (m s)) = bot s"
    "trace (snd (m s)) = trace s @ evs1" "list_all (\<lambda>e. \<not> is_quit e) evs1"
    unfolding quitless_def by blast
  show "bot (snd (andthen m f s)) = bot s \<and>
     (\<exists>evs. trace (snd (andthen m f s)) = trace s @ evs \<and> list_all (\<lambda>e. \<not> is_quit e) evs)"
  proof (cases rule: andthen_cases [of m s f])
    case (raised e s')
    then show ?thesis using m by auto
  next
    case (returned x s')
    from assms(2) [of x] obtain evs2 where f: "bot (snd (f x s')) = bot s'"
      "trace (snd (f x s')) = trace s' @ evs2" "list_all (\<lambda>e. \<not> is_quit e) evs2"
      unfolding quitless_def by blast
    have "trace (snd (andthen m f s)) = trace s @ (evs1 @ evs2)"
      using returned m f by simp
    moreover have "list_all (\<lambda>e. \<not> is_quit e) (evs1 @ evs2)"
      using m f by simp
    moreover have "bot (snd (andthen m f s)) = bot s"
      using returned m f by simp
    ultimately show ?thesis by blast
  qed
qed

lemma quitless_try_except:
  assumes "quitless m" and "\<And>e. quitless (h e)"
  shows "quitless (try_except m h)"
  unfolding quitless_def
proof (intro allI)
  fix s
  from assms(1) obtain evs1 where m: "bot (snd (m s)) = bot s"
    "trace (snd (m s)) = trace s @ evs1" "list_all (\<lambda>e. \<not> is_quit e) evs1"
    unfolding quitless_def by blast
  obtain r s' where rs: "m s = (r, s')" by (cases "m s")
  show "bot (snd (try_except m h s)) = bot s \<and>
     (\<exists>evs. trace (snd (try_except m h s)) = trace s @ evs \<and> list_all (\<lambda>e. \<not> is_quit e) evs)"
  proof (cases "\<exists>e. r = Inl e \<and> is_Exception e")
    case False
    then have "try_except m h s = m s"
      using rs by (cases r) (auto simp: try_except_def)
    then show ?thesis using m by auto
  next
    case True
    then obtain e where e: "r = Inl e" "is_Exception e" by blast
    then have t: "try_except m h s = h e s'"
      using rs by (simp add: try_except_def)
    from assms(2) [of e] obtain evs2 where f: "bot (snd (h e s')) = bot s'"
      "trace (snd (h e s')) = trace s' @ evs2" "list_all (\<lambda>e. \<not> is_quit e) evs2"
      unfolding quitless_def by blast
    have "trace (snd (try_except m h s)) = trace s @ (evs1 @ evs2)"
      using t rs m f by simp
    moreover have "list_all (\<lambda>e. \<not> is_quit e) (evs1 @ evs2)"
      using m f by simp
    moreover have "bot (snd (try_except m h s)) = bot s"
      using t rs m f by simp
    ultimately show ?thesis by blast
  qed
qed

lemma quitless_if: "quitless m1 \<Longrightarrow> quitless m2 \<Longrightarrow> quitless (if b then m1 else m2)"
  by simp

lemmas quitless_intros =
  quitless_andthen quitless_try_except quitless_if quitless_ret quitless_raise quitless_logger
  quitless_EC quitless_py_in quitless_invoke

lemma quitless_validate_credentials: "quitless (validate_credentials self)"
  unfolding validate_credentials_def by (intro quitless_intros)

lemma quitless_submit_and_wait: "quitless (submit_and_wait out self)"
  unfolding submit_and_wait_def navigate_def enter_username_def enter_password_def
    click_sign_in_def await_outcome_def outcome_condition_def py_or_def
  by (intro quitless_intros allI) simp_all

lemma quitless_check_success: "quitless (check_success out self)"
  unfolding check_success_def
  by (intro quitless_intros allI) simp_all

lemma quitless_login: "quitless (login out self)"
  unfolding login_def attempt_def
  by (intro quitless_intros quitless_validate_credentials quitless_submit_and_wait
      quitless_check_success)


subsection \<open>Programs whose failed calls are what they raise\<close>

lemma reports_ret: "reports (ret x)"
  by (simp add: reports_def ret_def)

lemma reports_raise: "reports (raise e)"
  by (simp add: reports_def raise_def)

lemma reports_logger: "lvl \<noteq> ERROR \<Longrightarrow> reports (logger lvl msg)"
  by (simp add: reports_def logger_def)

lemma reports_EC: "reports (EC c)"
  by (simp add: reports_def EC_def)

lemma reports_py_in: "reports (py_in needle v)"
  by (cases v) (simp_all add: reports_ret reports_raise)

lemma reports_invoke: "reports (invoke out c)"
  by (auto simp: reports_def invoke_def split: prod.splits)

lemma reports_andthen:
  assumes "reports m" and "\<And>x. reports (f x)"
  shows "reports (andthen m f)"
  unfolding reports_def
proof (intro allI)
  fix s
  from assms(1) obtain evs1 ls1 where m: "trace (snd (m s)) = trace s @ evs1"
    "logged (snd (m s)) = logged s @ ls1" "list_all (\<lambda>l. fst l \<noteq> ERROR) ls1"
    "\<forall>c e. Call c (Inl e) \<in> set evs1 \<longrightarrow> fst (m s) = Inl e"
    unfolding reports_def by blast
  show "\<exists>evs ls. trace (snd (andthen m f s)) = trace s @ evs \<and>
      logged (snd (andthen m f s)) = logged s @ ls \<and> list_all (\<lambda>l. fst l \<noteq> ERROR) ls \<and>
      (\<forall>c e. Call c (Inl e) \<in> set evs \<longrightarrow> fst (andthen m f s) = Inl e)"
  proof (cases rule: andthen_cases [of m s f])
    case (raised e s')
    then show ?thesis using m by auto
  next
    case (returned x s')
    from assms(2) [of x] obtain evs2 ls2 where f: "trace (snd (f x s')) = trace s' @ evs2"
      "logged (snd (f x s')) = logged s' @ ls2" "list_all (\<lambda>l. fst l \<noteq> ERROR) ls2"
      "\<forall>c e. Call c (Inl e) \<in> set evs2 \<longrightarrow> fst (f x s') = Inl e"
      unfolding reports_def by blast
    have none: "Call c (Inl e) \<notin> set evs1" for c e
      using m(4) returned(1) by auto
    have "trace (snd (andthen m f s)) = trace s @ (evs1 @ evs2)"
      using returned m f by simp
    moreover have "logged (snd (andthen m f s)) = logged s @ (ls1 @ ls2)"
      using returned m f by simp
    moreover have "list_all (\<lambda>l. fst l \<noteq> ERROR) (ls1 @ ls2)"
      using m f by simp
    moreover have "\<forall>c e. Call c (Inl e) \<in> set (evs1 @ evs2) \<longrightarrow> fst (andthen m f s) = Inl e"
      using none f(4) returned(2) by auto
    ultimately show ?thesis by blast
  qed
qed

lemma reports_if: "reports m1 \<Longrightarrow> reports m2 \<Longrightarrow> reports (if b then m1 else m2)"
  by simp

lemmas reports_intros =
  reports_andthen reports_if reports_ret reports_raise reports_logger reports_EC reports_py_in
  reports_invoke

lemma reports_submit_and_wait: "reports (submit_and_wait out self)"
  unfolding submit_and_wait_def navigate_def enter_username_def enter_password_def
    click_sign_in_def await_outcome_def outcome_condition_def py_or_def
  by (intro reports_intros) simp_all

lemma reports_check_success: "reports (check_success out self)"
  unfolding check_success_def
  by (intro reports_intros) simp_all

lemma reports_attempt: "reports (attempt out self)"
  unfolding attempt_def
  by (intro reports_andthen reports_submit_and_wait reports_check_success)

subsection \<open>The two outcomes of the validation, and login after each\<close>

lemma validate_credentials_valid:
  "valid self \<Longrightarrow> validate_credentials self s = (Inr True, s)"
  by (auto simp: valid_def validate_credentials_def ret_def)

lemma validate_credentials_invalid:
  "\<not> valid self \<Longrightarrow>
     validate_credentials self s = (Inr False, s\<lparr>logged := logged s @ [complaint self]\<rparr>)"
  by (auto simp: valid_def complaint_def validate_credentials_def ret_def andthen_def logger_def)

lemma login_invalid:
  "\<not> valid self \<Longrightarrow> login out self s = (Inr False, s\<lparr>logged := logged s @ [complaint self]\<rparr>)"
  by (simp add: login_def try_except_def andthen_def validate_credentials_invalid ret_def)

lemma login_valid:
  "valid self \<Longrightarrow> login out self s =
     (case attempt out self s of
        (Inl e, s') \<Rightarrow>
          if is_Exception e
          then (Inr False, s'\<lparr>logged := logged s' @ [(ERROR, ''Login failed: '' @ str_exn e)]\<rparr>)
          else (Inl e, s')
      | (Inr b, s') \<Rightarrow> (Inr b, s'))"
  by (simp add: login_def try_except_def andthen_def validate_credentials_valid ret_def
      logger_def split: prod.splits sum.splits)


lemma login_outcome:
  obtains r s' evs ls where "login out self s = (r, s')"
    "trace s' = trace s @ evs" "logged s' = logged s @ ls"
    "\<forall>m. r \<noteq> Inl (Exception m)"
    "\<forall>c m. Call c (Inl (Exception m)) \<in> set evs \<longrightarrow>
       r = Inr False \<and> length (filter (\<lambda>l. fst l = ERROR) ls) = 1"
proof (cases "valid self")
  case False
  show ?thesis
    by (rule that [of "Inr False" "s\<lparr>logged := logged s @ [complaint self]\<rparr>" "[]" "[complaint self]"])
      (simp_all add: login_invalid False)
next
  case True
  obtain r0 s0 where a: "attempt out self s = (r0, s0)" by (cases "attempt out self s")
  from reports_attempt [of out self] obtain evs ls where rep: "trace s0 = trace s @ evs"
    "logged s0 = logged s @ ls" "list_all (\<lambda>l. fst l \<noteq> ERROR) ls"
    "\<forall>c e. Call c (Inl e) \<in> set evs \<longrightarrow> r0 = Inl e"
    unfolding reports_def using a by (metis fst_conv snd_conv)
  have quiet: "filter (\<lambda>l. fst l = ERROR) ls = []"
    using rep(3) by (induction ls) auto
  show ?thesis
  proof (cases r0)
    case (Inr b)
    then have "login out self s = (Inr b, s0)"
      using a by (simp add: login_valid True)
    then show ?thesis
      using rep Inr by (intro that [of "Inr b" s0 evs ls]) auto
  next
    case (Inl e)
    show ?thesis
    proof (cases e)
      case (Exception m)
      then have "login out self s =
          (Inr False, s0\<lparr>logged := logged s0 @ [(ERROR, ''Login failed: '' @ m)]\<rparr>)"
        using a Inl by (simp add: login_valid True)
      then show ?thesis
        using rep quiet
        by (intro that [of "Inr False" "s0\<lparr>logged := logged s0 @ [(ERROR, ''Login failed: '' @ m)]\<rparr>"
              evs "ls @ [(ERROR, ''Login failed: '' @ m)]"]) auto
    next
      case (BaseException m)
      then have "login out self s = (Inl e, s0)"
        using a Inl by (simp add: login_valid True)
      then show ?thesis
        using rep Inl BaseException by (intro that [of "Inl e" s0 evs ls]) auto
    qed
  qed
qed

subsection \<open>The three runs of close\<close>

lemma close_absent:
  "\<not> truthy (driver self) \<Longrightarrow> close out self s = (Inr (), s\<lparr>logged := logged s @ [farewell]\<rparr>)"
  by (simp add: close_def andthen_def ret_def logger_def farewell_def)

lemma close_returns:
  "truthy (driver self) \<Longrightarrow> perform out (Quit (driver self)) (world s) = (Inr v, w) \<Longrightarrow>
     close out self s =
       (Inr (), s\<lparr>world := w, trace := trace s @ [Call (Quit (driver self)) (Inr v)],
                  logged := logged s @ [farewell]\<rparr>)"
  by (simp add: close_def andthen_def ret_def logger_def invoke_def farewell_def)

lemma close_raises:
  "truthy (driver self) \<Longrightarrow> perform out (Quit (driver self)) (world s) = (Inl e, w) \<Longrightarrow>
     close out self s =
       (Inl e, s\<lparr>world := w, trace := trace s @ [Call (Quit (driver self)) (Inl e)]\<rparr>)"
  by (simp add: close_def andthen_def ret_def logger_def invoke_def)

subsection \<open>The runs of main\<close>

lemma quitless_after_login: "quitless (try_except (after_login out b) handler)"
  unfolding after_login_def handler_def
  by (intro quitless_intros quitless_login allI) simp_all

lemma try_except_handler_no_Exception:
  "fst (try_except m handler s) \<noteq> Inl (Exception msg)"
  by (auto simp: try_except_def handler_def logger_def split: prod.splits sum.splits)

lemma cleanup_None: "bot s = None \<Longrightarrow> cleanup out s = (Inr (), s)"
  by (simp add: cleanup_def andthen_def get_bot_def ret_def)

lemma cleanup_Some: "bot s = Some b \<Longrightarrow> cleanup out s = close out b s"
  by (simp add: cleanup_def andthen_def get_bot_def)

lemma andthen_set_bot: "andthen (set_bot b) f s = f () (s\<lparr>bot := b\<rparr>)"
  by (simp add: andthen_def set_bot_def)

lemma try_except_andthen_Inr:
  "m s = (Inr x, s') \<Longrightarrow> try_except (andthen m f) h s = try_except (f x) h s'"
  by (simp add: try_except_def andthen_def)

lemma try_except_andthen_Inl:
  "m s = (Inl e, s') \<Longrightarrow>
     try_except (andthen m f) h s = (if is_Exception e then h e s' else (Inl e, s'))"
  by (simp add: try_except_def andthen_def)

lemma try_finally_run:
  "m s = (r, s') \<Longrightarrow>
     try_finally m c s = (case c s' of (Inl e, t) \<Rightarrow> (Inl e, t) | (Inr u, t) \<Rightarrow> (r, t))"
  by (simp add: try_finally_def)

lemma main_shape:
  "main env out s =
     try_finally
       (try_except
          (andthen (init out (getenv env ''LINKEDIN_USERNAME'' ''your_email_or_phone'')
                             (getenv env ''LINKEDIN_PASSWORD'' ''your_password'')) (\<lambda>b.
           andthen (set_bot (Some b)) (\<lambda>_. after_login out b)))
          handler)
       (cleanup out) (s\<lparr>bot := None\<rparr>)"
  unfolding main_def Let_def after_login_def handler_def cleanup_def
  by (simp only: andthen_set_bot)

lemma init_run:
  "launch out chrome_options (world s) = (r, w) \<Longrightarrow>
     init out u p s =
       (case r of Inl e \<Rightarrow> Inl e | Inr h \<Rightarrow> Inr \<lparr>username = u, password = p, driver = Obj h\<rparr>,
        s\<lparr>world := w, trace := trace s @ [Launch chrome_options r]\<rparr>)"
  by (cases r) (simp_all add: init_def andthen_def start_def ret_def)

lemma main_launch_raises:
  assumes "launch out chrome_options (world s) = (Inl e, w)"
  shows "main env out s =
     (if is_Exception e
      then (Inr (), s\<lparr>world := w, logged := logged s @ [(ERROR, ''Unexpected error: '' @ str_exn e)],
              trace := trace s @ [Launch chrome_options (Inl e)], bot := None\<rparr>)
      else (Inl e, s\<lparr>world := w, trace := trace s @ [Launch chrome_options (Inl e)], bot := None\<rparr>))"
proof -
  let ?s1 = "s\<lparr>world := w, trace := trace s @ [Launch chrome_options (Inl e)], bot := None\<rparr>"
  have i: "init out u p (s\<lparr>bot := None\<rparr>) = (Inl e, ?s1)" for u p
    using assms init_run [of out "s\<lparr>bot := None\<rparr>" "Inl e" w u p] by simp
  show ?thesis
  proof (cases "is_Exception e")
    case True
    have "try_except (andthen (init out u p) f) handler (s\<lparr>bot := None\<rparr>) =
        (Inr (), ?s1\<lparr>logged := logged s @ [(ERROR, ''Unexpected error: '' @ str_exn e)]\<rparr>)" for u p f
      using True try_except_andthen_Inl [of "init out u p" "s\<lparr>bot := None\<rparr>" e ?s1 f handler] i [of u p]
      by (simp add: handler_def logger_def)
    then show ?thesis
      using True by (simp add: main_shape try_finally_run cleanup_None)
  next
    case False
    have "try_except (andthen (init out u p) f) handler (s\<lparr>bot := None\<rparr>) = (Inl e, ?s1)" for u p f
      using False try_except_andthen_Inl [of "init out u p" "s\<lparr>bot := None\<rparr>" e ?s1 f handler] i [of u p]
      by simp
    then show ?thesis
      using False by (simp add: main_shape try_finally_run cleanup_None)
  qed
qed

lemma main_constructed:
  assumes "launch out chrome_options (world s) = (Inr h, w)"
  obtains r5 s5 evs where
    "bot s5 = Some \<lparr>username = getenv env ''LINKEDIN_USERNAME'' ''your_email_or_phone'',
        password = getenv env ''LINKEDIN_PASSWORD'' ''your_password'', driver = Obj h\<rparr>"
    "trace s5 = trace s @ Launch chrome_options (Inr h) # evs"
    "list_all (\<lambda>e. \<not> is_quit e) evs"
    "\<forall>m. r5 \<noteq> Inl (Exception m)"
    "main env out s =
       (case close out \<lparr>username = getenv env ''LINKEDIN_USERNAME'' ''your_email_or_phone'',
           password = getenv env ''LINKEDIN_PASSWORD'' ''your_password'', driver = Obj h\<rparr> s5 of
          (Inl e, t) \<Rightarrow> (Inl e, t) | (Inr u, t) \<Rightarrow> (r5, t))"
proof -
  define U where "U = getenv env ''LINKEDIN_USERNAME'' ''your_email_or_phone''"
  define P where "P = getenv env ''LINKEDIN_PASSWORD'' ''your_password''"
  define b where "b = \<lparr>username = U, password = P, driver = Obj h\<rparr>"
  define s1 where "s1 = s\<lparr>world := w, trace := trace s @ [Launch chrome_options (Inr h)], bot := None\<rparr>"
  define s2 where "s2 = s1\<lparr>bot := Some b\<rparr>"
  define body where "body = try_except
          (andthen (init out U P) (\<lambda>b. andthen (set_bot (Some b)) (\<lambda>_. after_login out b))) handler"
  obtain r5 s5 where run: "try_except (after_login out b) handler s2 = (r5, s5)"
    by (cases "try_except (after_login out b) handler s2")
  from quitless_after_login [of out b] obtain evs where q: "bot s5 = bot s2"
    "trace s5 = trace s2 @ evs" "list_all (\<lambda>e. \<not> is_quit e) evs"
    unfolding quitless_def using run by (metis snd_conv)
  have r5: "\<forall>m. r5 \<noteq> Inl (Exception m)"
    using try_except_handler_no_Exception [of "after_login out b" s2] run by simp
  have i: "init out U P (s\<lparr>bot := None\<rparr>) = (Inr b, s1)"
    using assms init_run [of out "s\<lparr>bot := None\<rparr>" "Inr h" w U P] by (simp add: b_def s1_def)
  have "body (s\<lparr>bot := None\<rparr>) =
      try_except (andthen (set_bot (Some b)) (\<lambda>_. after_login out b)) handler s1"
    unfolding body_def by (rule try_except_andthen_Inr) (rule i)
  also have "\<dots> = try_except (after_login out b) handler s2"
    by (simp add: try_except_def andthen_set_bot s2_def)
  finally have "body (s\<lparr>bot := None\<rparr>) = (r5, s5)"
    using run by simp
  then have "try_finally body (cleanup out) (s\<lparr>bot := None\<rparr>) =
      (case cleanup out s5 of (Inl e, t) \<Rightarrow> (Inl e, t) | (Inr u, t) \<Rightarrow> (r5, t))"
    by (rule try_finally_run)
  moreover have "cleanup out s5 = close out b s5"
    using q(1) by (simp add: cleanup_Some s2_def)
  ultimately have "main env out s =
      (case close out b s5 of (Inl e, t) \<Rightarrow> (Inl e, t) | (Inr u, t) \<Rightarrow> (r5, t))"
    by (simp add: main_shape body_def U_def P_def)
  then show ?thesis
    using q r5 by (intro that [of s5 evs r5]) (simp_all add: b_def s2_def s1_def U_def P_def)
qed

section \<open>The validation of the credentials\<close>

lemma well_formed_last:
  assumes "well_formed_identifier s"
  shows "s \<noteq> [] \<and> last s \<noteq> newline"
  using assms unfolding well_formed_identifier_def
proof
  assume "phone_format s"
  then obtain ds where ds: "s = ds \<or> s = CHR ''+'' # ds" "10 \<le> length ds"
    "list_all (in_class digit) ds"
    by (auto simp: phone_format_def)
  then have ne: "ds \<noteq> []" by auto
  then have "in_class digit (last ds)" using ds(3) by (simp add: list_all_iff)
  then have "last ds \<noteq> newline" by (auto simp: in_class_def digit_def newline_def)
  then show ?thesis using ds(1) ne by auto
next
  assume "email_format s"
  then obtain lp dom tld where e: "s = lp @ CHR ''@'' # dom @ CHR ''.'' # tld"
    "2 \<le> length tld" "list_all (in_class letter) tld"
    by (auto simp: email_format_def)
  then have ne: "tld \<noteq> []" by auto
  then have "in_class letter (last tld)" using e(3) by (simp add: list_all_iff)
  then have "last tld \<noteq> newline" by (auto simp: in_class_def letter_def newline_def)
  then show ?thesis using e(1) ne by auto
qed

lemma not_well_formed_newline: "\<not> well_formed_identifier (u @ [newline])"
  using well_formed_last [of "u @ [newline]"] by auto

lemma validate_credentials_fst: "fst (validate_credentials self s) = Inr (valid self)"
  by (cases "valid self") (simp_all add: validate_credentials_valid validate_credentials_invalid)

text \<open>
  What the code accepts, in full: a well-formed identifier, or one followed by a single
  newline, and a password of eight characters or more.
\<close>

lemma valid_iff:
  "valid self \<longleftrightarrow>
     (well_formed_identifier (username self) \<or>
      (\<exists>u. username self = u @ [newline] \<and> well_formed_identifier u)) \<and>
     8 \<le> length (password self)"
  unfolding valid_def re_match_email_phone ..

text \<open>
  Claim C10. An identifier that is not a well-formed email address or phone number is
  accepted: take any well-formed identifier and append one newline character. With a
  password of eight characters or more \<open>validate_credentials\<close> returns \<open>True\<close> for it,
  because \<open>$\<close> also holds just before a newline that ends the subject; and the
  identifier with the newline is neither of the two formats.
\<close>

theorem validate_credentials_trailing_newline:
  assumes "well_formed_identifier u" and "8 \<le> length p"
  shows "fst (validate_credentials \<lparr>username = u @ [newline], password = p, driver = d\<rparr> s) = Inr True
    \<and> \<not> well_formed_identifier (u @ [newline])"
  using assms by (simp add: validate_credentials_fst valid_iff not_well_formed_newline)

lemma phone_example: "well_formed_identifier ''+14155552671''"
  unfolding well_formed_identifier_def phone_format_def
  by (intro disjI1 exI [of _ "''14155552671''"]) (simp add: in_class_def digit_def)

lemma email_example: "well_formed_identifier ''user@example.com''"
  unfolding well_formed_identifier_def email_format_def
  by (intro disjI2 exI [of _ "''user''"] exI [of _ "''example''"] exI [of _ "''com''"])
    (simp add: in_class_def local_chars_def domain_chars_def letter_def)

theorem validate_credentials_trailing_newline_witness:
  "well_formed_identifier ''+14155552671'' \<and> 8 \<le> length ''password'' \<and>
   fst (validate_credentials \<lparr>username = ''+14155552671'' @ [newline], password = ''password'',
          driver = Obj 1\<rparr> initial) = Inr True \<and>
   \<not> well_formed_identifier (''+14155552671'' @ [newline])"
  using validate_credentials_trailing_newline [of "''+14155552671''" "''password''" "Obj 1" initial]
    phone_example
  by simp

text \<open>
  Claim C1. \<open>validate_credentials\<close> is to return \<open>True\<close> exactly for the identifiers of
  the phone format or of the email format, with a password of eight characters or more.
  The code does not: the identifier \<open>user@example.com\<close> followed by a newline is of
  neither format, and with the password \<open>password\<close> the code returns \<open>True\<close>.
\<close>

theorem validate_credentials_accepts_malformed:
  "fst (validate_credentials \<lparr>username = ''user@example.com'' @ [newline], password = ''password'',
          driver = Obj 1\<rparr> initial) = Inr True \<and>
   \<not> well_formed_identifier (''user@example.com'' @ [newline])"
proof
  show "fst (validate_credentials \<lparr>username = ''user@example.com'' @ [newline], password = ''password'',
          driver = Obj 1\<rparr> initial) = Inr True"
    by code_simp
  show "\<not> well_formed_identifier (''user@example.com'' @ [newline])"
    by (rule not_well_formed_newline)
qed

text \<open>The four examples of the specification come out as it says.\<close>

lemma validate_credentials_examples:
  "fst (validate_credentials \<lparr>username = ''user@example.com'', password = ''12345678'', driver = d\<rparr> s) = Inr True"
  "fst (validate_credentials \<lparr>username = ''+14155552671'', password = ''password'', driver = d\<rparr> s) = Inr True"
  "fst (validate_credentials \<lparr>username = ''12345'', password = p, driver = d\<rparr> s) = Inr False"
  "fst (validate_credentials \<lparr>username = ''user@example.com'', password = ''short'', driver = d\<rparr> s) = Inr False"
proof -
  have a: "re_match email_phone_pattern ''user@example.com'' \<noteq> None" by code_simp
  have b: "re_match email_phone_pattern ''+14155552671'' \<noteq> None" by code_simp
  have c: "re_match email_phone_pattern ''12345'' = None" by code_simp
  show "fst (validate_credentials \<lparr>username = ''user@example.com'', password = ''12345678'', driver = d\<rparr> s) = Inr True"
    using a by (simp add: validate_credentials_fst valid_def)
  show "fst (validate_credentials \<lparr>username = ''+14155552671'', password = ''password'', driver = d\<rparr> s) = Inr True"
    using b by (simp add: validate_credentials_fst valid_def)
  show "fst (validate_credentials \<lparr>username = ''12345'', password = p, driver = d\<rparr> s) = Inr False"
    using c by (simp add: validate_credentials_fst valid_def)
  show "fst (validate_credentials \<lparr>username = ''user@example.com'', password = ''short'', driver = d\<rparr> s) = Inr False"
    by (simp add: validate_credentials_fst valid_def)
qed

section \<open>The login\<close>

text \<open>Runs on the concrete browsers are computed with these equations.\<close>

lemma invoke_browser:
  "invoke (browser l f) c s = (f c, s\<lparr>trace := trace s @ [Call c (f c)]\<rparr>)"
  by (simp add: invoke_def browser_def)

lemma valid_alice: "valid alice"
  unfolding valid_def by code_simp

lemma invalid_mallory: "\<not> valid mallory"
  unfolding valid_def by code_simp

lemmas run_simps = andthen_def ret_def raise_def logger_def EC_def py_or_def invoke_browser
  submit_and_wait_def navigate_def enter_username_def enter_password_def click_sign_in_def
  await_outcome_def outcome_condition_def check_success_def attempt_def

text \<open>A fault that is not an \<open>Exception\<close> passes through the handler of \<open>login\<close>.\<close>

lemma login_passes_other:
  assumes "Call c (Inl (BaseException m)) \<in> set (new_events s (snd (login out self s)))"
  shows "fst (login out self s) = Inl (BaseException m)"
proof (cases "valid self")
  case False
  then show ?thesis
    using assms by (simp add: login_invalid new_events_def)
next
  case True
  obtain r0 s0 where a: "attempt out self s = (r0, s0)" by (cases "attempt out self s")
  from reports_attempt [of out self] obtain evs where rep: "trace s0 = trace s @ evs"
    "\<forall>c e. Call c (Inl e) \<in> set evs \<longrightarrow> r0 = Inl e"
    unfolding reports_def using a by (metis fst_conv snd_conv)
  have "trace (snd (login out self s)) = trace s0"
    using a by (cases r0) (simp_all add: login_valid True)
  then have "new_events s (snd (login out self s)) = evs"
    using rep(1) by (simp add: new_events_def)
  then have "r0 = Inl (BaseException m)"
    using assms rep(2) by simp
  then show ?thesis
    using a by (simp add: login_valid True)
qed

text \<open>
  Claim C2, as stated, has no exception escape \<open>login\<close>, whatever fault is injected.
  The handler is \<open>except Exception\<close>: when the user interrupts the navigation, the
  KeyboardInterrupt, which is not an \<open>Exception\<close>, escapes \<open>login\<close>; \<open>login\<close> does not
  return \<open>False\<close> and logs no line of level ERROR.
\<close>

theorem login_raises_on_interrupt:
  "fst (login (browser (Inr 1) interrupted) alice initial) = Inl (BaseException ''KeyboardInterrupt'') \<and>
   errors (logged (snd (login (browser (Inr 1) interrupted) alice initial))) = []"
  by (simp add: login_valid valid_alice) (simp add: run_simps alice_def initial_def errors_def)

text \<open>
  Claim C2, amended. \<open>login\<close> never raises an \<open>Exception\<close>: whatever the browser does,
  the outcome of \<open>login\<close> is not an escaping \<open>Exception\<close>. For every fault that is an
  \<open>Exception\<close> injected into a call of the login (the navigation, a field lookup, a
  field entry, the click, either wait, the read of the URL), \<open>login\<close> returns \<open>False\<close>
  and the run logs exactly one line of level ERROR. A fault that is not an
  \<open>Exception\<close> (KeyboardInterrupt, SystemExit) is not caught: it escapes \<open>login\<close>.
\<close>

theorem login_catches_every_Exception:
  "(\<forall>m. fst (login out self s) \<noteq> Inl (Exception m)) \<and>
   (\<forall>c m. Call c (Inl (Exception m)) \<in> set (new_events s (snd (login out self s))) \<longrightarrow>
      fst (login out self s) = Inr False \<and>
      length (errors (new_lines s (snd (login out self s)))) = 1) \<and>
   (\<forall>c m. Call c (Inl (BaseException m)) \<in> set (new_events s (snd (login out self s))) \<longrightarrow>
      fst (login out self s) = Inl (BaseException m))"
proof -
  obtain r s' evs ls where o: "login out self s = (r, s')"
    "trace s' = trace s @ evs" "logged s' = logged s @ ls"
    "\<forall>m. r \<noteq> Inl (Exception m)"
    "\<forall>c m. Call c (Inl (Exception m)) \<in> set evs \<longrightarrow>
       r = Inr False \<and> length (filter (\<lambda>l. fst l = ERROR) ls) = 1"
    by (rule login_outcome)
  have "new_events s s' = evs" "new_lines s s' = ls"
    using o(2,3) by (simp_all add: new_events_def new_lines_def)
  then have "(\<forall>m. fst (login out self s) \<noteq> Inl (Exception m)) \<and>
   (\<forall>c m. Call c (Inl (Exception m)) \<in> set (new_events s (snd (login out self s))) \<longrightarrow>
      fst (login out self s) = Inr False \<and>
      length (errors (new_lines s (snd (login out self s)))) = 1)"
    using o by (simp add: errors_def)
  then show ?thesis
    using login_passes_other [of _ _ s out self] by blast
qed

theorem login_catches_every_Exception_witness:
  "Call (Until (Obj 1) 10 (Cond (presence_of_element_located By_NAME ''session_key'')))
       (Inl (Exception ''Message: timeout''))
     \<in> set (new_events initial (snd (login (browser (Inr 1) no_form) alice initial))) \<and>
   fst (login (browser (Inr 1) no_form) alice initial) = Inr False \<and>
   length (errors (new_lines initial (snd (login (browser (Inr 1) no_form) alice initial)))) = 1 \<and>
   Call (Get (Obj 1) ''https://www.linkedin.com/login'') (Inl (BaseException ''KeyboardInterrupt''))
     \<in> set (new_events initial (snd (login (browser (Inr 1) interrupted) alice initial))) \<and>
   fst (login (browser (Inr 1) interrupted) alice initial) = Inl (BaseException ''KeyboardInterrupt'')"
proof -
  have a: "Call (Until (Obj 1) 10 (Cond (presence_of_element_located By_NAME ''session_key'')))
       (Inl (Exception ''Message: timeout''))
     \<in> set (new_events initial (snd (login (browser (Inr 1) no_form) alice initial)))"
    by (simp add: login_valid valid_alice) (simp add: run_simps alice_def initial_def new_events_def)
  have b: "Call (Get (Obj 1) ''https://www.linkedin.com/login'') (Inl (BaseException ''KeyboardInterrupt''))
     \<in> set (new_events initial (snd (login (browser (Inr 1) interrupted) alice initial)))"
    by (simp add: login_valid valid_alice) (simp add: run_simps alice_def initial_def new_events_def)
  from a b login_catches_every_Exception [of "browser (Inr 1) no_form" alice initial]
    login_catches_every_Exception [of "browser (Inr 1) interrupted" alice initial]
  show ?thesis
    by blast
qed

text \<open>
  Claim C7. When \<open>validate_credentials\<close> returns \<open>False\<close>, \<open>login\<close> returns \<open>False\<close> at once:
  the world is as it was and the run adds no event, so there is no navigation, no field
  entry, no click and no call of \<open>quit\<close> (the session stays open); the only lines logged
  are those of the validation.
\<close>

theorem login_stops_at_validation:
  assumes "fst (validate_credentials self s) = Inr False"
  shows "fst (login out self s) = Inr False \<and>
     world (snd (login out self s)) = world s \<and>
     trace (snd (login out self s)) = trace s \<and>
     new_lines s (snd (login out self s)) = new_lines s (snd (validate_credentials self s))"
proof -
  from assms have "\<not> valid self" by (simp add: validate_credentials_fst)
  then show ?thesis
    by (simp add: login_invalid validate_credentials_invalid)
qed

theorem login_stops_at_validation_witness:
  "fst (validate_credentials mallory initial) = Inr False \<and>
   fst (login (browser (Inr 1) feed_page) mallory initial) = Inr False \<and>
   world (snd (login (browser (Inr 1) feed_page) mallory initial)) = world initial \<and>
   trace (snd (login (browser (Inr 1) feed_page) mallory initial)) = trace initial"
proof -
  have a: "fst (validate_credentials mallory (initial :: unit state)) = Inr False"
    by (simp add: validate_credentials_fst invalid_mallory)
  from login_stops_at_validation [OF a, of "browser (Inr 1) feed_page"] a show ?thesis
    by simp
qed

text \<open>
  Claim C6. After the phase that submits the form and waits (the credentials are valid
  and every call up to the second wait returned), \<open>login\<close> reads the current URL again.
  When the URL read contains \<open>feed\<close>, \<open>login\<close> logs the success at level INFO and returns
  \<open>True\<close>; otherwise it logs the warning that the login may require additional
  verification and returns \<open>False\<close>. That line is the only one logged after the wait.
\<close>

theorem login_classifies_by_url:
  assumes "fst (validate_credentials self s) = Inr True"
    and "fst (submit_and_wait out self s) = Inr ()"
    and "fst (invoke out (Current_url (driver self)) (snd (submit_and_wait out self s))) = Inr (Str url)"
  shows "fst (login out self s) = Inr (contains ''feed'' url) \<and>
     new_lines (snd (submit_and_wait out self s)) (snd (login out self s)) =
       [if contains ''feed'' url then (INFO, ''Successfully logged in!'')
        else (WARNING, ''Login may require additional verification'')]"
proof -
  from assms(1) have v: "valid self" by (simp add: validate_credentials_fst)
  obtain s1 where s1: "submit_and_wait out self s = (Inr (), s1)"
    using assms(2) by (cases "submit_and_wait out self s") auto
  obtain s2 where s2: "invoke out (Current_url (driver self)) s1 = (Inr (Str url), s2)"
    using assms(3) s1 by (cases "invoke out (Current_url (driver self)) s1") auto
  have l: "logged s2 = logged s1"
    using s2 by (auto simp: invoke_def split: prod.splits)
  have "check_success out self s1 =
      (Inr (contains ''feed'' url),
       s2\<lparr>logged := logged s2 @
         [if contains ''feed'' url then (INFO, ''Successfully logged in!'')
          else (WARNING, ''Login may require additional verification'')]\<rparr>)"
    unfolding check_success_def
    using andthen_Inr [of "invoke out (Current_url (driver self))" s1 "Str url" s2] s2
    by (simp add: andthen_def ret_def logger_def)
  then have "attempt out self s =
      (Inr (contains ''feed'' url),
       s2\<lparr>logged := logged s2 @
         [if contains ''feed'' url then (INFO, ''Successfully logged in!'')
          else (WARNING, ''Login may require additional verification'')]\<rparr>)"
    unfolding attempt_def
    using andthen_Inr [of "submit_and_wait out self" s "()" s1 "\<lambda>_. check_success out self"] s1
    by simp
  then show ?thesis
    using v s1 l by (simp add: login_valid new_lines_def)
qed

theorem login_classifies_by_url_witness:
  "fst (login (browser (Inr 1) feed_page) alice initial) = Inr True \<and>
   fst (login (browser (Inr 1) checkpoint_page) alice initial) = Inr False \<and>
   new_lines (snd (submit_and_wait (browser (Inr 1) checkpoint_page) alice initial))
       (snd (login (browser (Inr 1) checkpoint_page) alice initial)) =
     [(WARNING, ''Login may require additional verification'')]"
proof -
  have v: "fst (validate_credentials alice (initial :: unit state)) = Inr True"
    by (simp add: validate_credentials_fst valid_alice)
  have a: "fst (submit_and_wait (browser (Inr 1) feed_page) alice initial) = Inr ()"
    by (simp add: run_simps alice_def initial_def)
  have b: "fst (invoke (browser (Inr 1) feed_page) (Current_url (driver alice))
      (snd (submit_and_wait (browser (Inr 1) feed_page) alice initial))) =
      Inr (Str ''https://www.linkedin.com/feed/'')"
    by (simp add: run_simps alice_def initial_def)
  have a': "fst (submit_and_wait (browser (Inr 1) checkpoint_page) alice initial) = Inr ()"
    by (simp add: run_simps alice_def initial_def)
  have b': "fst (invoke (browser (Inr 1) checkpoint_page) (Current_url (driver alice))
      (snd (submit_and_wait (browser (Inr 1) checkpoint_page) alice initial))) =
      Inr (Str ''https://www.linkedin.com/checkpoint/challenge'')"
    by (simp add: run_simps alice_def initial_def)
  have c: "contains ''feed'' ''https://www.linkedin.com/feed/''" by code_simp
  have c': "\<not> contains ''feed'' ''https://www.linkedin.com/checkpoint/challenge''" by code_simp
  from login_classifies_by_url [OF v a b] login_classifies_by_url [OF v a' b'] c c'
  show ?thesis by simp
qed

text \<open>
  The check of the URL is reached only when the second wait returns. When that wait
  times out, the handler logs the failure at level ERROR, \<open>login\<close> returns \<open>False\<close>, and
  no warning is logged.
\<close>

lemma login_outcome_wait_times_out:
  "fst (login (browser (Inr 1) no_outcome) alice initial) = Inr False \<and>
   new_lines (snd (submit_and_wait (browser (Inr 1) no_outcome) alice initial))
     (snd (login (browser (Inr 1) no_outcome) alice initial)) =
     [(ERROR, ''Login failed: Message: timeout'')]"
  by (simp add: login_valid valid_alice) (simp add: run_simps alice_def initial_def new_lines_def)

lemma outcome_condition_eq: "outcome_condition = EC (url_contains ''feed'')"
  by (rule ext) (simp add: outcome_condition_def py_or_def andthen_def EC_def ret_def)

text \<open>
  Claim C3, as stated, has the challenge-element condition evaluated eagerly and then
  discarded. It is not evaluated: in a complete run of \<open>login\<close> no condition object for
  the element \<open>challenge\<close> is ever built.
\<close>

theorem challenge_condition_not_built:
  "Built (presence_of_element_located By_ID ''challenge'')
     \<notin> set (trace (snd (login (browser (Inr 1) feed_page) alice initial)))"
  by (simp add: login_valid valid_alice) (simp add: run_simps alice_def initial_def)

text \<open>
  Claim C3, amended. In the step of \<open>login\<close> that awaits the outcome only the first
  condition is ever awaited. The argument of the wait is the URL condition alone:
  evaluating it builds the condition \<open>url_contains('feed')\<close> and nothing else, since
  Python's \<open>or\<close> returns its first operand when that is truthy and does not evaluate the
  second. So the wait of the source is the wait on the URL condition alone.
\<close>

theorem await_outcome_is_await_url_only:
  "outcome_condition s = (Inr (Cond (url_contains ''feed'')), s\<lparr>trace := trace s @ [Built (url_contains ''feed'')]\<rparr>)
   \<and> await_outcome out self = await_url_only out self"
  unfolding await_outcome_def await_url_only_def outcome_condition_eq by (simp add: EC_def)

section \<open>The top level\<close>

lemma close_present:
  assumes "truthy (driver self)"
  obtains r rq t where "close out self s = (r, t)" "bot t = bot s"
    "trace t = trace s @ [Call (Quit (driver self)) rq]"
    "rq = fst (perform out (Quit (driver self)) (world s))"
    "r = (case rq of Inl e \<Rightarrow> Inl e | Inr v \<Rightarrow> Inr ())"
proof (cases "perform out (Quit (driver self)) (world s)")
  case (Pair rq w)
  show ?thesis
  proof (cases rq)
    case (Inl e)
    then show ?thesis
      using close_raises [OF assms, of out s e w] Pair
      by (intro that [of "Inl e" "s\<lparr>world := w, trace := trace s @ [Call (Quit (driver self)) (Inl e)]\<rparr>" rq]) simp_all
  next
    case (Inr v)
    then show ?thesis
      using close_returns [OF assms, of out s v w] Pair
      by (intro that [of "Inr ()" "s\<lparr>world := w, trace := trace s @ [Call (Quit (driver self)) (Inr v)], logged := logged s @ [farewell]\<rparr>" rq]) simp_all
  qed
qed

lemma filter_is_quit_none: "list_all (\<lambda>e. \<not> is_quit e) evs \<Longrightarrow> filter is_quit evs = []"
  by (induction evs) auto

lemma main_run:
  assumes "launch out chrome_options (world s) = (Inr h, w)"
  obtains evs rq where
    "trace (snd (main env out s)) =
       trace s @ Launch chrome_options (Inr h) # evs @ [Call (Quit (Obj h)) rq]"
    "list_all (\<lambda>e. \<not> is_quit e) evs"
    "bot (snd (main env out s)) =
       Some \<lparr>username = getenv env ''LINKEDIN_USERNAME'' ''your_email_or_phone'',
             password = getenv env ''LINKEDIN_PASSWORD'' ''your_password'', driver = Obj h\<rparr>"
proof -
  define b where "b = \<lparr>username = getenv env ''LINKEDIN_USERNAME'' ''your_email_or_phone'',
             password = getenv env ''LINKEDIN_PASSWORD'' ''your_password'', driver = Obj h\<rparr>"
  obtain r5 s5 evs where m: "bot s5 = Some b"
    "trace s5 = trace s @ Launch chrome_options (Inr h) # evs"
    "list_all (\<lambda>e. \<not> is_quit e) evs"
    "main env out s = (case close out b s5 of (Inl e, t) \<Rightarrow> (Inl e, t) | (Inr u, t) \<Rightarrow> (r5, t))"
    unfolding b_def by (rule main_constructed [OF assms, of env]) blast
  have tr: "truthy (driver b)" by (simp add: b_def)
  obtain r rq t where c: "close out b s5 = (r, t)" "bot t = bot s5"
    "trace t = trace s5 @ [Call (Quit (driver b)) rq]"
    by (rule close_present [OF tr, of out s5]) blast
  have "snd (main env out s) = t"
    using m(4) c(1) by (cases r) simp_all
  then show ?thesis
    using m c by (intro that [of evs rq]) (simp_all add: b_def)
qed

text \<open>
  Claim C4. In every run of \<open>main\<close> in which the agent was constructed (the browser was
  launched), \<open>close\<close> is invoked exactly once, whatever the exit path: after a
  successful login, after a failed one, after a fault caught by the handler of \<open>main\<close>
  and after one that passes through it. \<open>close\<close> releases the session the agent holds, so
  the events of the run hold exactly one call of \<open>quit\<close>, and it is on the session
  launched.
\<close>

theorem main_closes_exactly_once:
  assumes "launch out chrome_options (world s) = (Inr h, w)"
  shows "\<exists>r. filter is_quit (new_events s (snd (main env out s))) = [Call (Quit (Obj h)) r]"
proof -
  obtain evs rq where m:
    "trace (snd (main env out s)) =
       trace s @ Launch chrome_options (Inr h) # evs @ [Call (Quit (Obj h)) rq]"
    "list_all (\<lambda>e. \<not> is_quit e) evs"
    by (rule main_run [OF assms, of env]) blast
  have "filter is_quit (new_events s (snd (main env out s))) = [Call (Quit (Obj h)) rq]"
    using m by (simp add: new_events_def filter_is_quit_none)
  then show ?thesis ..
qed


theorem main_closes_exactly_once_witness:
  "(\<exists>r. filter is_quit
      (new_events initial (snd (main credentials (browser (Inr 1) feed_page) initial))) =
      [Call (Quit (Obj 1)) r]) \<and>
   (\<exists>r. filter is_quit
      (new_events initial (snd (main credentials (browser (Inr 1) checkpoint_page) initial))) =
      [Call (Quit (Obj 1)) r]) \<and>
   (\<exists>r. filter is_quit
      (new_events initial (snd (main credentials (browser (Inr 1) no_form) initial))) =
      [Call (Quit (Obj 1)) r]) \<and>
   (\<exists>r. filter is_quit
      (new_events initial (snd (main credentials (browser (Inr 1) interrupted) initial))) =
      [Call (Quit (Obj 1)) r])"
proof -
  have a: "launch (browser (Inr 1) f) chrome_options (world initial) = (Inr 1, ())" for f
    by (simp add: browser_def initial_def)
  from main_closes_exactly_once [OF a [of feed_page], of credentials]
    main_closes_exactly_once [OF a [of checkpoint_page], of credentials]
    main_closes_exactly_once [OF a [of no_form], of credentials]
    main_closes_exactly_once [OF a [of interrupted], of credentials]
  show ?thesis
    by blast
qed






text \<open>
  Claim C8, as stated, has the completion line logged on every call of \<open>close\<close>. When
  the release call raises, \<open>close\<close> ends there and the line is not logged.
\<close>

theorem close_raises_without_log_line:
  "(INFO, ''Browser session closed'')
     \<notin> set (logged (snd (close (browser (Inr 1) quit_fails) alice initial)))"
  by (simp add: close_def run_simps alice_def initial_def)

text \<open>
  Claim C8, amended. \<open>close\<close> releases the session only when one exists. When the agent
  holds no session, \<open>close\<close> makes no call at all and only logs the completion line. When
  it holds one, \<open>close\<close> calls \<open>quit\<close> on it once. The completion line is logged on every
  call of \<open>close\<close> that returns, whether a session was open or not; when the release call
  raises, \<open>close\<close> raises the same exception and logs nothing.
\<close>

theorem close_guarded:
  "(\<not> truthy (driver self) \<longrightarrow>
      close out self s = (Inr (), s\<lparr>logged := logged s @ [(INFO, ''Browser session closed'')]\<rparr>)) \<and>
   (truthy (driver self) \<longrightarrow>
      new_events s (snd (close out self s)) =
        [Call (Quit (driver self)) (fst (perform out (Quit (driver self)) (world s)))]) \<and>
   (truthy (driver self) \<and> fst (perform out (Quit (driver self)) (world s)) = Inr v \<longrightarrow>
      fst (close out self s) = Inr () \<and>
      new_lines s (snd (close out self s)) = [(INFO, ''Browser session closed'')]) \<and>
   (truthy (driver self) \<and> fst (perform out (Quit (driver self)) (world s)) = Inl e \<longrightarrow>
      fst (close out self s) = Inl e \<and> new_lines s (snd (close out self s)) = [])"
proof (cases "truthy (driver self)")
  case False
  then show ?thesis
    using close_absent [of self out s] by (simp add: farewell_def)
next
  case True
  obtain rq wq where p: "perform out (Quit (driver self)) (world s) = (rq, wq)"
    by (cases "perform out (Quit (driver self)) (world s)")
  show ?thesis
  proof (cases rq)
    case (Inl e')
    then show ?thesis
      using True p close_raises [of self out s e' wq]
      by (simp add: new_events_def new_lines_def)
  next
    case (Inr v')
    then show ?thesis
      using True p close_returns [of self out s v' wq]
      by (simp add: new_events_def new_lines_def farewell_def)
  qed
qed

theorem close_guarded_witness:
  "close (browser (Inr 1) feed_page) ghost initial =
     (Inr (), initial\<lparr>logged := logged initial @ [(INFO, ''Browser session closed'')]\<rparr>) \<and>
   new_events initial (snd (close (browser (Inr 1) feed_page) alice initial)) =
     [Call (Quit (Obj 1)) (Inr NoneV)] \<and>
   new_lines initial (snd (close (browser (Inr 1) feed_page) alice initial)) =
     [(INFO, ''Browser session closed'')] \<and>
   fst (close (browser (Inr 1) quit_fails) alice initial) =
     Inl (Exception ''Message: invalid session id'') \<and>
   new_lines initial (snd (close (browser (Inr 1) quit_fails) alice initial)) = []"
proof -
  have g: "\<not> truthy (driver ghost)" by (simp add: ghost_def)
  have a: "truthy (driver alice)" "driver alice = Obj 1" by (simp_all add: alice_def)
  have p: "fst (perform (browser (Inr 1) feed_page) (Quit (driver alice)) (world initial)) = Inr NoneV"
    "fst (perform (browser (Inr 1) quit_fails) (Quit (driver alice)) (world initial)) =
       Inl (Exception ''Message: invalid session id'')"
    by (simp_all add: browser_def alice_def)
  from close_guarded [where self = ghost and out = "browser (Inr 1) feed_page" and s = initial]
    close_guarded [where self = alice and out = "browser (Inr 1) feed_page" and s = initial
      and v = NoneV]
    close_guarded [where self = alice and out = "browser (Inr 1) quit_fails" and s = initial
      and e = "Exception ''Message: invalid session id''"]
    g a p
  show ?thesis by simp
qed

text \<open>
  Claim C9. \<open>main\<close> reads the two credentials from the environment variables
  \<open>LINKEDIN_USERNAME\<close> and \<open>LINKEDIN_PASSWORD\<close>, each with a placeholder as default. Where
  a variable is unset, \<open>main\<close> runs exactly as if the variable held the placeholder.
  It does not fail for the missing variable: the first thing it does is launch the
  browser, and the agent it constructs holds the placeholder as its credential.
\<close>

theorem main_uses_placeholders:
  "(env ''LINKEDIN_USERNAME'' = None \<longrightarrow>
      main env out s = main (env(''LINKEDIN_USERNAME'' \<mapsto> ''your_email_or_phone'')) out s) \<and>
   (env ''LINKEDIN_PASSWORD'' = None \<longrightarrow>
      main env out s = main (env(''LINKEDIN_PASSWORD'' \<mapsto> ''your_password'')) out s) \<and>
   (\<exists>r evs. new_events s (snd (main env out s)) = Launch chrome_options r # evs) \<and>
   (launch out chrome_options (world s) = (Inr h, w) \<longrightarrow>
      bot (snd (main env out s)) =
        Some \<lparr>username = (case env ''LINKEDIN_USERNAME'' of None \<Rightarrow> ''your_email_or_phone'' | Some v \<Rightarrow> v),
              password = (case env ''LINKEDIN_PASSWORD'' of None \<Rightarrow> ''your_password'' | Some v \<Rightarrow> v),
              driver = Obj h\<rparr>)"
proof (intro conjI impI)
  assume "env ''LINKEDIN_USERNAME'' = None"
  then show "main env out s = main (env(''LINKEDIN_USERNAME'' \<mapsto> ''your_email_or_phone'')) out s"
    by (simp add: main_def getenv_def)
next
  assume "env ''LINKEDIN_PASSWORD'' = None"
  then show "main env out s = main (env(''LINKEDIN_PASSWORD'' \<mapsto> ''your_password'')) out s"
    by (simp add: main_def getenv_def)
next
  obtain r w' where l: "launch out chrome_options (world s) = (r, w')"
    by (cases "launch out chrome_options (world s)")
  show "\<exists>r evs. new_events s (snd (main env out s)) = Launch chrome_options r # evs"
  proof (cases r)
    case (Inl e)
    then have "new_events s (snd (main env out s)) = [Launch chrome_options (Inl e)]"
      using main_launch_raises [of out s e w' env] l by (simp add: new_events_def)
    then show ?thesis by blast
  next
    case (Inr h')
    then obtain evs rq where
      "trace (snd (main env out s)) =
         trace s @ Launch chrome_options (Inr h') # evs @ [Call (Quit (Obj h')) rq]"
      using main_run [of out s h' w' env] l by blast
    then have "new_events s (snd (main env out s)) =
        Launch chrome_options (Inr h') # evs @ [Call (Quit (Obj h')) rq]"
      by (simp add: new_events_def)
    then show ?thesis by blast
  qed
next
  assume "launch out chrome_options (world s) = (Inr h, w)"
  then show "bot (snd (main env out s)) =
        Some \<lparr>username = (case env ''LINKEDIN_USERNAME'' of None \<Rightarrow> ''your_email_or_phone'' | Some v \<Rightarrow> v),
              password = (case env ''LINKEDIN_PASSWORD'' of None \<Rightarrow> ''your_password'' | Some v \<Rightarrow> v),
              driver = Obj h\<rparr>"
    using main_run [of out s h w env] by (auto simp: getenv_def)
qed

theorem main_uses_placeholders_witness:
  "main Map.empty (browser (Inr 1) feed_page) initial =
     main [''LINKEDIN_USERNAME'' \<mapsto> ''your_email_or_phone''] (browser (Inr 1) feed_page) initial \<and>
   main Map.empty (browser (Inr 1) feed_page) initial =
     main [''LINKEDIN_PASSWORD'' \<mapsto> ''your_password''] (browser (Inr 1) feed_page) initial \<and>
   bot (snd (main Map.empty (browser (Inr 1) feed_page) initial)) =
     Some \<lparr>username = ''your_email_or_phone'', password = ''your_password'', driver = Obj 1\<rparr>"
proof -
  have a: "launch (browser (Inr 1) feed_page) chrome_options (world initial) = (Inr 1, ())"
    by (simp add: browser_def initial_def)
  have u: "(Map.empty :: string \<rightharpoonup> string) ''LINKEDIN_USERNAME'' = None"
    and p: "(Map.empty :: string \<rightharpoonup> string) ''LINKEDIN_PASSWORD'' = None"
    by simp_all
  note t = main_uses_placeholders [where env = Map.empty and out = "browser (Inr 1) feed_page"
      and s = initial and h = 1 and w = "()"]
  from t u have 1: "main Map.empty (browser (Inr 1) feed_page) initial =
     main [''LINKEDIN_USERNAME'' \<mapsto> ''your_email_or_phone''] (browser (Inr 1) feed_page) initial"
    by blast
  from t p have 2: "main Map.empty (browser (Inr 1) feed_page) initial =
     main [''LINKEDIN_PASSWORD'' \<mapsto> ''your_password''] (browser (Inr 1) feed_page) initial"
    by blast
  from t a have "bot (snd (main Map.empty (browser (Inr 1) feed_page) initial)) =
     Some \<lparr>username = (case (Map.empty :: string \<rightharpoonup> string) ''LINKEDIN_USERNAME'' of
                None \<Rightarrow> ''your_email_or_phone'' | Some v \<Rightarrow> v),
           password = (case (Map.empty :: string \<rightharpoonup> string) ''LINKEDIN_PASSWORD'' of
                None \<Rightarrow> ''your_password'' | Some v \<Rightarrow> v), driver = Obj 1\<rparr>"
    by blast
  then have 3: "bot (snd (main Map.empty (browser (Inr 1) feed_page) initial)) =
     Some \<lparr>username = ''your_email_or_phone'', password = ''your_password'', driver = Obj 1\<rparr>"
    by simp
  from 1 2 3 show ?thesis by blast
qed

end
